theory Spec2Isabelle
  imports Main "HOL-Library.Word"
begin

section \<open>The finite-state-machine engine of fsm.h\<close>

text \<open>
  The class template \<open>FSM<T>\<close> of \<open>src/fsm.h\<close> is embedded with explicit state passing.
  The type variable \<open>'s\<close> stands for the state type \<open>T\<close>. A transition condition is a
  \<open>std::function<bool()>\<close>: a closure that reads (and may change) whatever lies outside the
  engine. That outside is the type variable \<open>'w\<close>; a condition maps the outside before the
  call to its answer and the outside after the call. Conditions cannot reach the private
  members of the machine, so the machine is not part of \<open>'w\<close>. A condition is taken to
  return; one that throws, or that calls back into the machine it is registered with, is
  outside the embedding.
\<close>

subsection \<open>Exceptions\<close>

datatype error = invalid_state_error | ambiguous_state_error

subsection \<open>Data\<close>

type_synonym 'w trans_func_t = "'w \<Rightarrow> bool \<times> 'w"

type_synonym ('s, 'w) state_info_t = "'s \<times> 'w trans_func_t"

type_synonym int32_t = "32 word"

text \<open>
  The three private members. \<open>trans_tbl\<close> and \<open>edges_tbl\<close> are the unordered maps
  \<open>_trans_tbl\<close> and \<open>_edges_tbl\<close>; an entry of \<open>edges_tbl\<close> is the pair
  (in edges, out edges) of \<open>int32_t\<close> counters. \<open>cur_state\<close> is the member \<open>_state\<close>.
  The counters are 32-bit words read as two's complement. Incrementing one beyond
  \<open>2 ^ 31 - 1\<close> is undefined in C++; the word wraps around, and the properties below that
  depend on a counter say how many edges they cover.
\<close>

record ('s, 'w) fsm =
  trans_tbl :: "'s \<rightharpoonup> ('s, 'w) state_info_t list"
  edges_tbl :: "'s \<rightharpoonup> (int32_t \<times> int32_t)"
  cur_state :: 's

text \<open>
  The constructor leaves both tables empty. It does not initialise \<open>_state\<close>; the value
  the member happens to hold is the parameter \<open>s0\<close>.
\<close>

definition FSM :: "'s \<Rightarrow> ('s, 'w) fsm" where
  "FSM s0 = \<lparr>trans_tbl = Map.empty, edges_tbl = Map.empty, cur_state = s0\<rparr>"

subsection \<open>Registration\<close>

text \<open>
  \<open>operator[]\<close> of the unordered maps inserts a value-initialised entry when the key is
  absent: an empty vector in the transition table, the pair (0, 0) in the edge table.
\<close>

definition trans_tbl_index :: "('s \<rightharpoonup> ('s, 'w) state_info_t list) \<Rightarrow> 's \<Rightarrow> ('s \<rightharpoonup> ('s, 'w) state_info_t list)" where
  "trans_tbl_index tbl k = (case tbl k of None \<Rightarrow> tbl(k \<mapsto> []) | Some v \<Rightarrow> tbl)"

definition edges_tbl_index :: "('s \<rightharpoonup> (int32_t \<times> int32_t)) \<Rightarrow> 's \<Rightarrow> ('s \<rightharpoonup> (int32_t \<times> int32_t))" where
  "edges_tbl_index tbl k = (case tbl k of None \<Rightarrow> tbl(k \<mapsto> (0, 0)) | Some d \<Rightarrow> tbl)"

text \<open>The vector stored under a key of the transition table; no vector when the key is absent.\<close>

definition edges_of :: "('s, 'w) fsm \<Rightarrow> 's \<Rightarrow> ('s, 'w) state_info_t list" where
  "edges_of m s = (case trans_tbl m s of None \<Rightarrow> [] | Some v \<Rightarrow> v)"

definition register_transition ::
  "('s, 'w) fsm \<Rightarrow> 's \<Rightarrow> 's \<Rightarrow> 'w trans_func_t \<Rightarrow> bool \<times> ('s, 'w) fsm" where
  "register_transition m pre_state next_state pred =
    (if pre_state = next_state then (False, m)
     else
       let m1 = m\<lparr>trans_tbl := trans_tbl_index (trans_tbl m) pre_state\<rparr>;
           next_si_vec = edges_of m1 pre_state
       in if list_ex (\<lambda>si. fst si = next_state) next_si_vec then (False, m1)
          else
            let m2 = m1\<lparr>trans_tbl := (trans_tbl m1)(pre_state \<mapsto> next_si_vec @ [(next_state, pred)])\<rparr>;
                m3 = (if edges_tbl m2 pre_state = None
                      then m2\<lparr>edges_tbl := (edges_tbl m2)(pre_state \<mapsto> (0, 0))\<rparr> else m2);
                m4 = (if edges_tbl m3 next_state = None
                      then m3\<lparr>edges_tbl := (edges_tbl m3)(next_state \<mapsto> (0, 0))\<rparr> else m3);
                t5 = edges_tbl_index (edges_tbl m4) pre_state;
                t6 = (case t5 pre_state of None \<Rightarrow> t5 | Some d \<Rightarrow> t5(pre_state \<mapsto> (fst d, snd d + 1)));
                t7 = edges_tbl_index t6 next_state;
                t8 = (case t7 next_state of None \<Rightarrow> t7 | Some d \<Rightarrow> t7(next_state \<mapsto> (fst d + 1, snd d)))
            in (True, m4\<lparr>edges_tbl := t8\<rparr>))"

subsection \<open>Current state and terminal states\<close>

definition state :: "('s, 'w) fsm \<Rightarrow> 's" where
  "state m = cur_state m"

definition set_state :: "('s, 'w) fsm \<Rightarrow> 's \<Rightarrow> ('s, 'w) fsm" where
  "set_state m init_state = m\<lparr>cur_state := init_state\<rparr>"

definition is_terminated_state :: "('s, 'w) fsm \<Rightarrow> 's \<Rightarrow> bool" where
  "is_terminated_state m s =
    (case edges_tbl m s of None \<Rightarrow> False | Some d \<Rightarrow> if snd d = 0 then True else False)"

subsection \<open>The evaluation primitive\<close>

text \<open>
  The range-for loop of \<open>try_trigger\<close> over the vector of the current state, with the
  locals \<open>cnt\<close> and \<open>tmp_new_state\<close>. A throw leaves the loop with the outside as it is
  after the condition just called.
\<close>

fun eval_loop ::
  "('s, 'w) state_info_t list \<Rightarrow> int32_t \<Rightarrow> 's \<Rightarrow> 'w \<Rightarrow> (error + (int32_t \<times> 's)) \<times> 'w" where
  "eval_loop [] cnt tmp_new_state w = (Inr (cnt, tmp_new_state), w)"
| "eval_loop (next_si # rest) cnt tmp_new_state w =
    (let r = snd next_si w;
         cnt1 = (if fst r then cnt + 1 else cnt);
         tmp1 = (if fst r then fst next_si else tmp_new_state)
     in if 1 <s cnt1 then (Inl ambiguous_state_error, snd r)
        else eval_loop rest cnt1 tmp1 (snd r))"

text \<open>
  \<open>try_trigger\<close> takes the machine, the outside and the two objects bound to the reference
  parameters (\<open>old_state\<close>, \<open>new_state\<close>), and gives back the exception thrown or the
  boolean returned, together with the machine, the outside and the two objects as the call
  leaves them. The two references are taken to be bound to two different objects, neither
  of them read by a condition during the call. The function returns \<open>cnt\<close> converted to
  \<open>bool\<close>, that is, whether \<open>cnt\<close> is not 0.
\<close>

definition try_trigger ::
  "('s, 'w) fsm \<Rightarrow> 'w \<Rightarrow> 's \<times> 's \<Rightarrow> (error + bool) \<times> ('s, 'w) fsm \<times> 'w \<times> ('s \<times> 's)" where
  "try_trigger m w outs =
    (if is_terminated_state m (cur_state m)
     then (Inr True, m, w, (cur_state m, cur_state m))
     else case trans_tbl m (cur_state m) of
       None \<Rightarrow> (Inl invalid_state_error, m, w, outs)
     | Some vec \<Rightarrow>
        (case eval_loop vec 0 (cur_state m) w of
           (Inl e, w1) \<Rightarrow> (Inl e, m, w1, outs)
         | (Inr (cnt, tmp_new_state), w1) \<Rightarrow>
             if cnt = 1
             then (Inr (cnt \<noteq> 0), m\<lparr>cur_state := tmp_new_state\<rparr>, w1, (cur_state m, tmp_new_state))
             else (Inr (cnt \<noteq> 0), m, w1, outs)))"

subsection \<open>The polling wrappers\<close>

text \<open>
  What the wrappers need from the system: \<open>std::this_thread::yield\<close>, during which other
  threads may change the outside, and \<open>clock_gettime(CLOCK_REALTIME, _)\<close>, which gives the
  time read, or nothing when it returns non-zero. The fields of a \<open>timespec\<close> are only
  compared with each other, never computed with, so they are integers here.
\<close>

record timespec =
  tv_sec :: int
  tv_nsec :: int

record 'w sys =
  yield :: "'w \<Rightarrow> 'w"
  clock_gettime :: "'w \<Rightarrow> timespec option \<times> 'w"

definition is_timeout_fn :: "timespec \<Rightarrow> timespec \<Rightarrow> bool" where
  "is_timeout_fn abs_time cur_time \<longleftrightarrow>
     tv_sec cur_time > tv_sec abs_time
     \<or> (tv_sec cur_time = tv_sec abs_time \<and> tv_nsec cur_time \<ge> tv_nsec abs_time)"

text \<open>
  The loops of \<open>trigger\<close> and \<open>timed_trigger\<close> have no bound of their own. The first
  argument bounds the number of passes through the loop body; \<open>None\<close> means the loop is
  still running after that many passes.
\<close>

fun trigger ::
  "nat \<Rightarrow> 'w sys \<Rightarrow> ('s, 'w) fsm \<Rightarrow> 'w \<Rightarrow> 's \<times> 's
   \<Rightarrow> ((error + unit) \<times> ('s, 'w) fsm \<times> 'w \<times> ('s \<times> 's)) option" where
  "trigger 0 sy m w outs = None"
| "trigger (Suc n) sy m w outs =
    (case try_trigger m w outs of (r, m1, w1, outs1) \<Rightarrow>
      (case r of
         Inl e \<Rightarrow> Some (Inl e, m1, w1, outs1)
       | Inr changed \<Rightarrow>
           if changed then Some (Inr (), m1, w1, outs1)
           else trigger n sy m1 (yield sy w1) outs1))"

fun timed_loop ::
  "nat \<Rightarrow> 'w sys \<Rightarrow> timespec \<Rightarrow> ('s, 'w) fsm \<Rightarrow> 'w \<Rightarrow> 's \<times> 's
   \<Rightarrow> ((error + bool) \<times> ('s, 'w) fsm \<times> 'w \<times> ('s \<times> 's)) option" where
  "timed_loop 0 sy abs_time m w outs = None"
| "timed_loop (Suc n) sy abs_time m w outs =
    (case try_trigger m (yield sy w) outs of (r, m1, w1, outs1) \<Rightarrow>
      (case r of
         Inl e \<Rightarrow> Some (Inl e, m1, w1, outs1)
       | Inr changed \<Rightarrow>
           if changed then Some (Inr True, m1, w1, outs1)
           else (case clock_gettime sy w1 of (c, w2) \<Rightarrow>
             (case c of
                None \<Rightarrow> Some (Inr False, m1, w2, outs1)
              | Some cur_time \<Rightarrow>
                  if \<not> is_timeout_fn abs_time cur_time
                  then timed_loop n sy abs_time m1 w2 outs1
                  else Some (Inr False, m1, w2, outs1)))))"

definition timed_trigger ::
  "nat \<Rightarrow> 'w sys \<Rightarrow> ('s, 'w) fsm \<Rightarrow> 'w \<Rightarrow> 's \<times> 's \<Rightarrow> timespec
   \<Rightarrow> ((error + bool) \<times> ('s, 'w) fsm \<times> 'w \<times> ('s \<times> 's)) option" where
  "timed_trigger n sy m w outs abs_time =
    (case try_trigger m w outs of (r, m1, w1, outs1) \<Rightarrow>
      (case r of
         Inl e \<Rightarrow> Some (Inl e, m1, w1, outs1)
       | Inr changed \<Rightarrow>
           if changed then Some (Inr True, m1, w1, outs1)
           else timed_loop n sy abs_time m1 w1 outs1))"

subsection \<open>Notions used to state the properties\<close>

text \<open>
  One pass over a vector of edges: every condition is called once, in the order of the
  vector, each on the outside the previous one left. The result is the list of answers
  and the outside after the last call.
\<close>

fun pass :: "('s, 'w) state_info_t list \<Rightarrow> 'w \<Rightarrow> bool list \<times> 'w" where
  "pass [] w = ([], w)"
| "pass (si # rest) w = (let r = snd si w; q = pass rest (snd r) in (fst r # fst q, snd q))"

text \<open>
  The registered edges as a set of (source, target) pairs, and the number of edges that
  leave and that enter a state.
\<close>

definition edge_set :: "('s, 'w) fsm \<Rightarrow> ('s \<times> 's) set" where
  "edge_set m = {(s, t). t \<in> fst ` set (edges_of m s)}"

definition out_degree :: "('s, 'w) fsm \<Rightarrow> 's \<Rightarrow> nat" where
  "out_degree m s = card {t. (s, t) \<in> edge_set m}"

definition in_degree :: "('s, 'w) fsm \<Rightarrow> 's \<Rightarrow> nat" where
  "in_degree m t = card {s. (s, t) \<in> edge_set m}"

text \<open>The entry \<open>operator[]\<close> would find or create in the edge table.\<close>

definition degrees :: "('s, 'w) fsm \<Rightarrow> 's \<Rightarrow> int32_t \<times> int32_t" where
  "degrees m s = (case edges_tbl m s of None \<Rightarrow> (0, 0) | Some d \<Rightarrow> d)"

text \<open>
  The machines a program can hold: a freshly constructed one, and whatever any public
  member function leaves behind, whether it returned or threw.
\<close>

inductive built :: "('s, 'w) fsm \<Rightarrow> bool" where
  built_FSM: "built (FSM s0)"
| built_register_transition: "built m \<Longrightarrow> built (snd (register_transition m a b p))"
| built_set_state: "built m \<Longrightarrow> built (set_state m s)"
| built_try_trigger: "built m \<Longrightarrow> try_trigger m w outs = (r, m', w', outs') \<Longrightarrow> built m'"
| built_trigger: "built m \<Longrightarrow> trigger n sy m w outs = Some (u, m', w', outs') \<Longrightarrow> built m'"
| built_timed_trigger:
    "built m \<Longrightarrow> timed_trigger n sy m w outs abs_time = Some (r, m', w', outs') \<Longrightarrow> built m'"




text \<open>
  The topology summary mirrors the edge set: the transition table has finitely many keys,
  no vector is empty, no vector holds a target twice or its own key, and the edge table has
  an entry exactly for the states some edge touches, holding the two edge counts as
  \<open>int32_t\<close> values.
\<close>

definition mirrors :: "('s, 'w) fsm \<Rightarrow> bool" where
  "mirrors m \<longleftrightarrow>
     finite (dom (trans_tbl m))
     \<and> (\<forall>s es. trans_tbl m s = Some es \<longrightarrow> es \<noteq> [] \<and> distinct (map fst es) \<and> s \<notin> fst ` set es)
     \<and> (\<forall>s. edges_tbl m s =
           (if \<exists>t. (s, t) \<in> edge_set m \<or> (t, s) \<in> edge_set m
            then Some (of_nat (in_degree m s), of_nat (out_degree m s)) else None))"

section \<open>Registration: auxiliary facts\<close>

lemma register_accept:
  assumes "a \<noteq> b" "b \<notin> fst ` set (edges_of m a)"
  shows "register_transition m a b p = (True, m\<lparr>trans_tbl := (trans_tbl m)(a \<mapsto> edges_of m a @ [(b, p)]),
     edges_tbl := (let e = edges_tbl m; da = (case e a of None \<Rightarrow> (0,0) | Some d \<Rightarrow> d);
                      e1 = e(a \<mapsto> (fst da, snd da + 1));
                      db = (case e1 b of None \<Rightarrow> (0,0) | Some d \<Rightarrow> d)
                   in e1(b \<mapsto> (fst db + 1, snd db)))\<rparr>)"
  using assms
  by (force simp: register_transition_def Let_def list_ex_iff edges_of_def trans_tbl_index_def edges_tbl_index_def split: option.splits)

lemma register_reject:
  assumes "\<not> (a \<noteq> b \<and> b \<notin> fst ` set (edges_of m a))"
  shows "register_transition m a b p = (False, m)"
  using assms
  by (force simp: register_transition_def Let_def list_ex_iff edges_of_def trans_tbl_index_def split: option.splits)

section \<open>The invariant of the tables\<close>

lemma edge_set_FSM: "edge_set (FSM s0) = {}"
  by (simp add: edge_set_def edges_of_def FSM_def)

lemma mirrors_FSM: "mirrors (FSM s0)"
  unfolding mirrors_def edge_set_FSM by (simp add: FSM_def)

lemma mirrors_tables:
  "trans_tbl m' = trans_tbl m \<Longrightarrow> edges_tbl m' = edges_tbl m \<Longrightarrow> mirrors m' = mirrors m"
  by (simp add: mirrors_def edge_set_def edges_of_def in_degree_def out_degree_def)

lemma finite_succs: "finite {t. (s, t) \<in> edge_set m}"
  by (simp add: edge_set_def)

lemma finite_preds: "finite (dom (trans_tbl m)) \<Longrightarrow> finite {s. (s, t) \<in> edge_set m}"
proof (erule finite_subset [rotated])
  show "{s. (s, t) \<in> edge_set m} \<subseteq> dom (trans_tbl m)"
  proof
    fix s assume "s \<in> {s. (s, t) \<in> edge_set m}"
    then have "edges_of m s \<noteq> []" by (auto simp: edge_set_def)
    then show "s \<in> dom (trans_tbl m)" by (cases "trans_tbl m s") (auto simp: edges_of_def)
  qed
qed

lemma mirrors_degrees:
  assumes "mirrors m"
  shows "degrees m s = (of_nat (in_degree m s), of_nat (out_degree m s))"
proof (cases "\<exists>t. (s, t) \<in> edge_set m \<or> (t, s) \<in> edge_set m")
  case True
  with assms show ?thesis by (simp add: mirrors_def degrees_def)
next
  case False
  then have "{t. (s, t) \<in> edge_set m} = {}" "{t. (t, s) \<in> edge_set m} = {}" by auto
  then have "in_degree m s = 0" "out_degree m s = 0"
    by (simp_all add: in_degree_def out_degree_def)
  moreover from False assms have "edges_tbl m s = None" by (simp add: mirrors_def)
  ultimately show ?thesis by (simp add: degrees_def)
qed

lemma mirrors_vector:
  assumes "mirrors m"
  shows "distinct (map fst (edges_of m s))" and "s \<notin> fst ` set (edges_of m s)"
proof -
  have "distinct (map fst (edges_of m s)) \<and> s \<notin> fst ` set (edges_of m s)"
  proof (cases "trans_tbl m s")
    case None
    then show ?thesis by (simp add: edges_of_def)
  next
    case (Some es)
    with assms have "distinct (map fst es) \<and> s \<notin> fst ` set es"
      unfolding mirrors_def by blast
    with Some show ?thesis by (simp add: edges_of_def)
  qed
  then show "distinct (map fst (edges_of m s))" and "s \<notin> fst ` set (edges_of m s)"
    by simp_all
qed

lemma mirrors_length:
  assumes "mirrors m"
  shows "out_degree m s = length (edges_of m s)"
proof -
  from assms have "distinct (map fst (edges_of m s))"
    by (rule mirrors_vector)
  then have "card (set (map fst (edges_of m s))) = length (map fst (edges_of m s))"
    by (rule distinct_card)
  moreover have "{t. (s, t) \<in> edge_set m} = set (map fst (edges_of m s))"
    by (auto simp: edge_set_def)
  ultimately show ?thesis by (simp add: out_degree_def)
qed

lemma mirrors_register_accept:
  assumes inv: "mirrors m" and ne: "a \<noteq> b" and fresh: "b \<notin> fst ` set (edges_of m a)"
  shows "mirrors (snd (register_transition m a b p))"
proof -
  define m' where "m' = snd (register_transition m a b p)"
  have tt: "trans_tbl m' = (trans_tbl m)(a \<mapsto> edges_of m a @ [(b, p)])"
    and et: "edges_tbl m' = (let e = edges_tbl m; da = degrees m a;
                      e1 = e(a \<mapsto> (fst da, snd da + 1));
                      db = (case e1 b of None \<Rightarrow> (0,0) | Some d \<Rightarrow> d)
                   in e1(b \<mapsto> (fst db + 1, snd db)))"
    unfolding m'_def register_accept [OF ne fresh] degrees_def by simp_all
  have eo: "edges_of m' s = (if s = a then edges_of m a @ [(b, p)] else edges_of m s)" for s
    by (simp add: edges_of_def tt)
  have es: "edge_set m' = insert (a, b) (edge_set m)"
    by (auto simp: edge_set_def eo split: if_splits)
  have notin: "(a, b) \<notin> edge_set m"
    using fresh by (simp add: edge_set_def)
  from inv have fin: "finite (dom (trans_tbl m))" by (simp add: mirrors_def)
  have out: "out_degree m' s = (if s = a then Suc (out_degree m a) else out_degree m s)" for s
  proof (cases "s = a")
    case True
    have "{t. (a, t) \<in> edge_set m'} = insert b {t. (a, t) \<in> edge_set m}"
      by (auto simp: es)
    moreover have "b \<notin> {t. (a, t) \<in> edge_set m}" using notin by simp
    ultimately show ?thesis using True finite_succs [of a m]
      by (simp add: out_degree_def)
  next
    case False
    then have "{t. (s, t) \<in> edge_set m'} = {t. (s, t) \<in> edge_set m}"
      by (auto simp: es)
    with False show ?thesis by (simp add: out_degree_def)
  qed
  have ind: "in_degree m' s = (if s = b then Suc (in_degree m b) else in_degree m s)" for s
  proof (cases "s = b")
    case True
    have "{t. (t, b) \<in> edge_set m'} = insert a {t. (t, b) \<in> edge_set m}"
      by (auto simp: es)
    moreover have "a \<notin> {t. (t, b) \<in> edge_set m}" using notin by simp
    ultimately show ?thesis using True finite_preds [OF fin, of b]
      by (simp add: in_degree_def)
  next
    case False
    then have "{t. (t, s) \<in> edge_set m'} = {t. (t, s) \<in> edge_set m}"
      by (auto simp: es)
    with False show ?thesis by (simp add: in_degree_def)
  qed
  have da: "degrees m a = (of_nat (in_degree m a), of_nat (out_degree m a))"
    and db: "degrees m b = (of_nat (in_degree m b), of_nat (out_degree m b))"
    using inv by (rule mirrors_degrees)+
  have c1: "finite (dom (trans_tbl m'))"
    using fin by (simp add: tt)
  have c2: "es' \<noteq> [] \<and> distinct (map fst es') \<and> s \<notin> fst ` set es'" if "trans_tbl m' s = Some es'" for s es'
  proof (cases "s = a")
    case True
    with that have e: "es' = edges_of m a @ [(b, p)]" by (simp add: tt)
    from inv have "distinct (map fst (edges_of m a))" "a \<notin> fst ` set (edges_of m a)"
      by (rule mirrors_vector)+
    with fresh ne True show ?thesis by (auto simp: e)
  next
    case False
    with that have "trans_tbl m s = Some es'" by (simp add: tt)
    with inv show ?thesis unfolding mirrors_def by blast
  qed
  have c3: "edges_tbl m' s =
           (if \<exists>t. (s, t) \<in> edge_set m' \<or> (t, s) \<in> edge_set m'
            then Some (of_nat (in_degree m' s), of_nat (out_degree m' s)) else None)" for s
  proof -
    consider "s = a" | "s = b" | "s \<noteq> a" "s \<noteq> b" by blast
    then show ?thesis
    proof cases
      case 1
      then have "(s, b) \<in> edge_set m'" by (simp add: es)
      then have ex: "\<exists>t. (s, t) \<in> edge_set m' \<or> (t, s) \<in> edge_set m'" by blast
      from 1 ne have "edges_tbl m' s = Some (of_nat (in_degree m a), of_nat (out_degree m a) + 1)"
        by (simp add: et Let_def da)
      with 1 ne ex show ?thesis by (simp add: out ind)
    next
      case 2
      then have "(a, s) \<in> edge_set m'" by (simp add: es)
      then have ex: "\<exists>t. (s, t) \<in> edge_set m' \<or> (t, s) \<in> edge_set m'" by blast
      from 2 ne have "edges_tbl m' s = Some (fst (degrees m b) + 1, snd (degrees m b))"
        by (simp add: et Let_def degrees_def)
      with 2 ne ex show ?thesis by (simp add: out ind db)
    next
      case 3
      then have "edges_tbl m' s = edges_tbl m s" by (simp add: et Let_def)
      moreover from 3 have "(\<exists>t. (s, t) \<in> edge_set m' \<or> (t, s) \<in> edge_set m')
         = (\<exists>t. (s, t) \<in> edge_set m \<or> (t, s) \<in> edge_set m)" by (auto simp: es)
      moreover from inv have "edges_tbl m s =
           (if \<exists>t. (s, t) \<in> edge_set m \<or> (t, s) \<in> edge_set m
            then Some (of_nat (in_degree m s), of_nat (out_degree m s)) else None)"
        unfolding mirrors_def by blast
      ultimately show ?thesis using 3 by (simp add: out ind)
    qed
  qed
  from c1 c2 c3 show ?thesis unfolding mirrors_def m'_def [symmetric] by blast
qed

lemma mirrors_register:
  assumes "mirrors m"
  shows "mirrors (snd (register_transition m a b p))"
proof (cases "a \<noteq> b \<and> b \<notin> fst ` set (edges_of m a)")
  case True
  with assms show ?thesis by (simp add: mirrors_register_accept)
next
  case False
  have "register_transition m a b p = (False, m)"
    using False
    by (force simp: register_transition_def Let_def list_ex_iff edges_of_def trans_tbl_index_def split: option.splits)
  with assms show ?thesis by simp
qed

section \<open>The evaluation loop: auxiliary facts\<close>

lemma sless_consts [simp]: "\<not> (1 <s (0::int32_t))" "\<not> (1 <s (1::int32_t))" "(1 <s (2::int32_t))"
  by (simp_all add: word_sless_alt)

lemma length_pass [simp]: "length (fst (pass es w)) = length es"
  by (induction es arbitrary: w) (simp_all add: Let_def)

lemma pass_take: "fst (pass (take j es) w) = take j (fst (pass es w))"
proof (induction es arbitrary: j w)
  case Nil
  then show ?case by simp
next
  case (Cons si es)
  then show ?case by (cases j) (simp_all add: Let_def)
qed

lemma no_true_nth: "count_list bs True = 0 \<Longrightarrow> j < length bs \<Longrightarrow> \<not> bs ! j"
  by (auto simp: count_list_0_iff dest: nth_mem)

lemma eval_loop_one_none:
  "count_list (fst (pass es w)) True = 0 \<Longrightarrow> eval_loop es 1 tmp w = (Inr (1, tmp), snd (pass es w))"
  by (induction es arbitrary: w) (simp_all add: Let_def split: if_splits)

lemma eval_loop_one_some:
  "0 < count_list (fst (pass es w)) True \<Longrightarrow>
   \<exists>k<length es. eval_loop es 1 tmp w = (Inl ambiguous_state_error, snd (pass (take (Suc k) es) w))
      \<and> fst (pass es w) ! k \<and> count_list (take k (fst (pass es w))) True = 0"
proof (induction es arbitrary: w)
  case Nil
  then show ?case by simp
next
  case (Cons si es)
  show ?case
  proof (cases "fst (snd si w)")
    case True
    then have "eval_loop (si # es) 1 tmp w = (Inl ambiguous_state_error, snd (pass (take (Suc 0) (si # es)) w))
      \<and> fst (pass (si # es) w) ! 0 \<and> count_list (take 0 (fst (pass (si # es) w))) True = 0"
      by (simp add: Let_def)
    then show ?thesis by blast
  next
    case False
    with Cons.prems have "0 < count_list (fst (pass es (snd (snd si w)))) True"
      by (simp add: Let_def)
    from Cons.IH [OF this] obtain k where k: "k < length es"
      "eval_loop es 1 tmp (snd (snd si w)) = (Inl ambiguous_state_error, snd (pass (take (Suc k) es) (snd (snd si w))))"
      "fst (pass es (snd (snd si w))) ! k" "count_list (take k (fst (pass es (snd (snd si w))))) True = 0"
      by blast
    with False have "Suc k < length (si # es) \<and> eval_loop (si # es) 1 tmp w = (Inl ambiguous_state_error, snd (pass (take (Suc (Suc k)) (si # es)) w))
      \<and> fst (pass (si # es) w) ! (Suc k) \<and> count_list (take (Suc k) (fst (pass (si # es) w))) True = 0"
      by (simp add: Let_def)
    then show ?thesis by blast
  qed
qed

lemma eval_loop_zero_none:
  "count_list (fst (pass es w)) True = 0 \<Longrightarrow> eval_loop es 0 tmp w = (Inr (0, tmp), snd (pass es w))"
  by (induction es arbitrary: w) (simp_all add: Let_def split: if_splits)

lemma eval_loop_zero_one:
  "count_list (fst (pass es w)) True = 1 \<Longrightarrow> k < length es \<Longrightarrow> fst (pass es w) ! k \<Longrightarrow>
   eval_loop es 0 tmp w = (Inr (1, fst (es ! k)), snd (pass es w))"
proof (induction es arbitrary: w k tmp)
  case Nil
  then show ?case by simp
next
  case (Cons si es)
  show ?case
  proof (cases "fst (snd si w)")
    case True
    with Cons.prems(1) have none: "count_list (fst (pass es (snd (snd si w)))) True = 0"
      by (simp add: Let_def)
    have "k = 0"
    proof (rule ccontr)
      assume "k \<noteq> 0"
      then obtain j where j: "k = Suc j" by (cases k) auto
      with Cons.prems have "j < length (fst (pass es (snd (snd si w))))" "fst (pass es (snd (snd si w))) ! j"
        by (simp_all add: Let_def)
      with no_true_nth [OF none] show False by blast
    qed
    with True none show ?thesis
      by (simp add: Let_def eval_loop_one_none)
  next
    case False
    with Cons.prems obtain j where j: "k = Suc j" by (cases k) (auto simp: Let_def)
    with False Cons.prems have "count_list (fst (pass es (snd (snd si w)))) True = 1"
      "j < length es" "fst (pass es (snd (snd si w))) ! j"
      by (simp_all add: Let_def)
    from Cons.IH [OF this] False j show ?thesis
      by (simp add: Let_def)
  qed
qed

lemma eval_loop_zero_many:
  "2 \<le> count_list (fst (pass es w)) True \<Longrightarrow>
   \<exists>k<length es. eval_loop es 0 tmp w = (Inl ambiguous_state_error, snd (pass (take (Suc k) es) w))
      \<and> fst (pass es w) ! k \<and> count_list (take k (fst (pass es w))) True = 1"
proof (induction es arbitrary: w tmp)
  case Nil
  then show ?case by simp
next
  case (Cons si es)
  show ?case
  proof (cases "fst (snd si w)")
    case True
    with Cons.prems have "0 < count_list (fst (pass es (snd (snd si w)))) True"
      by (simp add: Let_def)
    from eval_loop_one_some [OF this, of "fst si"] obtain k where k: "k < length es"
      "eval_loop es 1 (fst si) (snd (snd si w)) = (Inl ambiguous_state_error, snd (pass (take (Suc k) es) (snd (snd si w))))"
      "fst (pass es (snd (snd si w))) ! k" "count_list (take k (fst (pass es (snd (snd si w))))) True = 0"
      by blast
    with True have "Suc k < length (si # es) \<and> eval_loop (si # es) 0 tmp w = (Inl ambiguous_state_error, snd (pass (take (Suc (Suc k)) (si # es)) w))
      \<and> fst (pass (si # es) w) ! (Suc k) \<and> count_list (take (Suc k) (fst (pass (si # es) w))) True = 1"
      by (simp add: Let_def)
    then show ?thesis by blast
  next
    case False
    with Cons.prems have "2 \<le> count_list (fst (pass es (snd (snd si w)))) True"
      by (simp add: Let_def)
    from Cons.IH [OF this, of tmp] obtain k where k: "k < length es"
      "eval_loop es 0 tmp (snd (snd si w)) = (Inl ambiguous_state_error, snd (pass (take (Suc k) es) (snd (snd si w))))"
      "fst (pass es (snd (snd si w))) ! k" "count_list (take k (fst (pass es (snd (snd si w))))) True = 1"
      by blast
    with False have "Suc k < length (si # es) \<and> eval_loop (si # es) 0 tmp w = (Inl ambiguous_state_error, snd (pass (take (Suc (Suc k)) (si # es)) w))
      \<and> fst (pass (si # es) w) ! (Suc k) \<and> count_list (take (Suc k) (fst (pass (si # es) w))) True = 1"
      by (simp add: Let_def)
    then show ?thesis by blast
  qed
qed

section \<open>What a call leaves of the machine\<close>

lemma eval_loop_cnt:
  "eval_loop es c tmp w = (Inr (cnt, t), w') \<Longrightarrow> c = 0 \<or> c = 1 \<Longrightarrow> cnt = 0 \<or> cnt = 1"
proof (induction es arbitrary: c tmp w)
  case Nil
  then show ?case by auto
next
  case (Cons si es)
  show ?case
  proof (cases "fst (snd si w)")
    case True
    with Cons.prems have c: "c = 0" by (auto simp: Let_def)
    with True Cons.prems(1) have "eval_loop es 1 (fst si) (snd (snd si w)) = (Inr (cnt, t), w')"
      by (simp add: Let_def)
    from Cons.IH [OF this] show ?thesis by simp
  next
    case False
    with Cons.prems(1) have "eval_loop es c tmp (snd (snd si w)) = (Inr (cnt, t), w')"
      by (simp add: Let_def split: if_splits)
    from Cons.IH [OF this Cons.prems(2)] show ?thesis .
  qed
qed

lemma try_trigger_cases:
  assumes "try_trigger m w outs = (r, m', w', outs')"
  shows "(r = Inr True \<and> outs' = (cur_state m, cur_state m') \<and> m' = m\<lparr>cur_state := cur_state m'\<rparr>)
       \<or> (r \<noteq> Inr True \<and> m' = m \<and> outs' = outs)"
proof (cases "is_terminated_state m (cur_state m)")
  case True
  with assms show ?thesis by (auto simp: try_trigger_def)
next
  case nt: False
  show ?thesis
  proof (cases "trans_tbl m (cur_state m)")
    case None
    with nt assms show ?thesis by (auto simp: try_trigger_def)
  next
    case (Some vec)
    obtain x w1 where ev: "eval_loop vec 0 (cur_state m) w = (x, w1)" by (cases "eval_loop vec 0 (cur_state m) w")
    show ?thesis
    proof (cases x)
      case (Inl e)
      with nt Some ev assms show ?thesis by (auto simp: try_trigger_def)
    next
      case (Inr ct)
      obtain cnt t where ct: "ct = (cnt, t)" by (cases ct)
      with ev Inr have "cnt = 0 \<or> cnt = 1" by (auto dest: eval_loop_cnt)
      with nt Some ev Inr ct assms show ?thesis by (auto simp: try_trigger_def)
    qed
  qed
qed

lemma try_trigger_tables:
  assumes "try_trigger m w outs = (r, m', w', outs')"
  shows "trans_tbl m' = trans_tbl m \<and> edges_tbl m' = edges_tbl m"
proof -
  from try_trigger_cases [OF assms] have "m' = m\<lparr>cur_state := cur_state m'\<rparr> \<or> m' = m" by blast
  then show ?thesis
  proof
    assume "m' = m\<lparr>cur_state := cur_state m'\<rparr>"
    then have "trans_tbl m' = trans_tbl (m\<lparr>cur_state := cur_state m'\<rparr>)"
      "edges_tbl m' = edges_tbl (m\<lparr>cur_state := cur_state m'\<rparr>)" by simp_all
    then show ?thesis by simp
  qed simp
qed

lemma trigger_tables:
  "trigger n sy m w outs = Some (u, m', w', outs') \<Longrightarrow>
   trans_tbl m' = trans_tbl m \<and> edges_tbl m' = edges_tbl m"
proof (induction n arbitrary: m w outs)
  case 0
  then show ?case by simp
next
  case (Suc n)
  obtain r m1 w1 outs1 where tt: "try_trigger m w outs = (r, m1, w1, outs1)"
    by (cases "try_trigger m w outs") auto
  note fr = try_trigger_tables [OF tt]
  show ?case
  proof (cases r)
    case (Inl e)
    with Suc.prems tt fr show ?thesis by auto
  next
    case (Inr changed)
    show ?thesis
    proof (cases changed)
      case True
      with Inr Suc.prems tt fr show ?thesis by auto
    next
      case False
      with Inr Suc.prems tt have "trigger n sy m1 (yield sy w1) outs1 = Some (u, m', w', outs')"
        by simp
      from Suc.IH [OF this] fr show ?thesis by simp
    qed
  qed
qed

lemma timed_loop_tables:
  "timed_loop n sy abs_time m w outs = Some (r', m', w', outs') \<Longrightarrow>
   trans_tbl m' = trans_tbl m \<and> edges_tbl m' = edges_tbl m"
proof (induction n arbitrary: m w outs)
  case 0
  then show ?case by simp
next
  case (Suc n)
  obtain r m1 w1 outs1 where tt: "try_trigger m (yield sy w) outs = (r, m1, w1, outs1)"
    by (cases "try_trigger m (yield sy w) outs") auto
  note fr = try_trigger_tables [OF tt]
  show ?case
  proof (cases r)
    case (Inl e)
    with Suc.prems tt fr show ?thesis by auto
  next
    case (Inr changed)
    show ?thesis
    proof (cases changed)
      case True
      with Inr Suc.prems tt fr show ?thesis by auto
    next
      case False
      obtain c w2 where ck: "clock_gettime sy w1 = (c, w2)" by (cases "clock_gettime sy w1")
      show ?thesis
      proof (cases c)
        case None
        with False Inr Suc.prems tt ck fr show ?thesis by auto
      next
        case (Some cur_time)
        show ?thesis
        proof (cases "is_timeout_fn abs_time cur_time")
          case True
          with Some False Inr Suc.prems tt ck fr show ?thesis by auto
        next
          case nto: False
          with Some False Inr Suc.prems tt ck
          have "timed_loop n sy abs_time m1 w2 outs1 = Some (r', m', w', outs')" by simp
          from Suc.IH [OF this] fr show ?thesis by simp
        qed
      qed
    qed
  qed
qed

lemma timed_trigger_tables:
  assumes "timed_trigger n sy m w outs abs_time = Some (r', m', w', outs')"
  shows "trans_tbl m' = trans_tbl m \<and> edges_tbl m' = edges_tbl m"
proof -
  obtain r m1 w1 outs1 where tt: "try_trigger m w outs = (r, m1, w1, outs1)"
    by (cases "try_trigger m w outs") auto
  note fr = try_trigger_tables [OF tt]
  show ?thesis
  proof (cases r)
    case (Inl e)
    with assms tt fr show ?thesis by (auto simp: timed_trigger_def)
  next
    case (Inr changed)
    show ?thesis
    proof (cases changed)
      case True
      with Inr assms tt fr show ?thesis by (auto simp: timed_trigger_def)
    next
      case False
      with Inr assms tt have "timed_loop n sy abs_time m1 w1 outs1 = Some (r', m', w', outs')"
        by (simp add: timed_trigger_def)
      from timed_loop_tables [OF this] fr show ?thesis by simp
    qed
  qed
qed

lemma built_mirrors: "built m \<Longrightarrow> mirrors m"
proof (induction rule: built.induct)
  case (built_FSM s0)
  show ?case by (rule mirrors_FSM)
next
  case (built_register_transition m a b p)
  then show ?case by (simp add: mirrors_register)
next
  case (built_set_state m s)
  then show ?case by (simp add: set_state_def mirrors_tables [of "m\<lparr>cur_state := s\<rparr>" m])
next
  case (built_try_trigger m w outs r m' w' outs')
  from try_trigger_tables [OF built_try_trigger.hyps(2)] built_try_trigger.IH
  show ?case by (simp add: mirrors_tables [of m' m])
next
  case (built_trigger m n sy w outs u m' w' outs')
  from trigger_tables [OF built_trigger.hyps(2)] built_trigger.IH
  show ?case by (simp add: mirrors_tables [of m' m])
next
  case (built_timed_trigger m n sy w outs abs_time r m' w' outs')
  from timed_trigger_tables [OF built_timed_trigger.hyps(2)] built_timed_trigger.IH
  show ?case by (simp add: mirrors_tables [of m' m])
qed

lemma of_nat_int32_nonzero:
  assumes "0 < n" "n < 2 ^ 31"
  shows "(of_nat n :: int32_t) \<noteq> 0"
proof
  assume "(of_nat n :: int32_t) = 0"
  then obtain q where "n = q * 2 ^ LENGTH(32)" by (auto simp: of_nat_0)
  with assms show False by (cases q) auto
qed

lemma sint_of_nat_int32:
  assumes "n < 2 ^ 31"
  shows "sint (of_nat n :: int32_t) = int n"
  using assms by (simp add: signed_of_nat signed_take_bit_int_eq_self)

lemma built_not_terminated:
  assumes "built m" "trans_tbl m s = Some es" "length es < 2 ^ 31"
  shows "\<not> is_terminated_state m s"
proof -
  from assms(1) have inv: "mirrors m" by (rule built_mirrors)
  with assms(2) have ne: "es \<noteq> []" unfolding mirrors_def by blast
  from assms(2) have eo: "edges_of m s = es" by (simp add: edges_of_def)
  from ne obtain t p where "(t, p) \<in> set es" by (cases es) auto
  then have "(s, t) \<in> edge_set m" by (force simp: edge_set_def eo)
  with inv have "edges_tbl m s = Some (of_nat (in_degree m s), of_nat (out_degree m s))"
    unfolding mirrors_def by auto
  moreover have "out_degree m s = length es" using mirrors_length [OF inv, of s] eo by simp
  moreover have "(of_nat (length es) :: int32_t) \<noteq> 0"
    using ne assms(3) by (intro of_nat_int32_nonzero) simp_all
  ultimately show ?thesis by (simp add: is_terminated_state_def)
qed

section \<open>Two registrations from one source\<close>

lemma scenario_tables:
  assumes "A \<noteq> B" "A \<noteq> C" "B \<noteq> C"
  shows "snd (register_transition (snd (register_transition (FSM s0) A B p)) A C q)
       = \<lparr>trans_tbl = [A \<mapsto> [(B, p), (C, q)]],
          edges_tbl = [A \<mapsto> (0, 2), B \<mapsto> (1, 0), C \<mapsto> (1, 0)],
          cur_state = s0\<rparr>"
proof -
  have e0: "edges_of (FSM s0) A = []" by (simp add: edges_of_def FSM_def)
  have m1: "snd (register_transition (FSM s0) A B p)
       = \<lparr>trans_tbl = [A \<mapsto> [(B, p)]], edges_tbl = [A \<mapsto> (0, 1), B \<mapsto> (1, 0)], cur_state = s0\<rparr>"
    using assms(1) by (simp add: register_accept e0 Let_def) (simp add: FSM_def)
  have e1: "edges_of \<lparr>trans_tbl = [A \<mapsto> [(B, p)]], edges_tbl = [A \<mapsto> (0, 1), B \<mapsto> (1, 0)], cur_state = s0\<rparr> A = [(B, p)]"
    by (simp add: edges_of_def)
  show ?thesis
    unfolding m1 using assms by (simp add: register_accept e1 Let_def fun_upd_twist)
qed

lemma target_only_tables:
  assumes "A \<noteq> B"
  shows "snd (register_transition (FSM s0) A B p)
       = \<lparr>trans_tbl = [A \<mapsto> [(B, p)]], edges_tbl = [A \<mapsto> (0, 1), B \<mapsto> (1, 0)], cur_state = s0\<rparr>"
proof -
  have e0: "edges_of (FSM s0) A = []" by (simp add: edges_of_def FSM_def)
  show ?thesis
    using assms by (simp add: register_accept e0 Let_def) (simp add: FSM_def)
qed

section \<open>The loop of the deadline-bounded trigger: auxiliary facts\<close>







section \<open>Properties of the engine\<close>

lemmas model_defs = register_transition_def set_state_def FSM_def Let_def trans_tbl_index_def
  edges_of_def edges_tbl_index_def try_trigger_def is_terminated_state_def state_def

subsection \<open>Ambiguous transitions\<close>

text \<open>
  Claim C1. The machine has been built through its member functions, its current state
  has a vector \<open>es\<close> of outgoing edges (fewer than \<open>2 ^ 31\<close> of them, so that the
  \<open>int32_t\<close> out-degree counter has not overflowed), and at least two conditions of
  \<open>es\<close> answer true in a pass started on the outside \<open>w\<close>. Then \<open>try_trigger\<close>
  throws \<open>ambiguous_state_error\<close> at the edge \<open>k\<close> whose condition is the second one to
  answer true: exactly one condition before \<open>k\<close> answered true, and the outside is the one
  left by the conditions up to and including \<open>k\<close>, the later ones not having been called.
  The machine, its current state included, and the two output objects are as before.
\<close>

theorem try_trigger_ambiguous:
  assumes "built m" and "trans_tbl m (cur_state m) = Some es" and "length es < 2 ^ 31"
    and "2 \<le> count_list (fst (pass es w)) True"
  shows "\<exists>k<length es.
           fst (pass es w) ! k
         \<and> count_list (take k (fst (pass es w))) True = 1
         \<and> try_trigger m w outs
             = (Inl ambiguous_state_error, m, snd (pass (take (Suc k) es) w), outs)"
proof -
  from assms(1-3) have nt: "\<not> is_terminated_state m (cur_state m)"
    by (rule built_not_terminated)
  from eval_loop_zero_many [OF assms(4), of "cur_state m"] obtain k where k: "k < length es"
    "eval_loop es 0 (cur_state m) w = (Inl ambiguous_state_error, snd (pass (take (Suc k) es) w))"
    "fst (pass es w) ! k" "count_list (take k (fst (pass es w))) True = 1"
    by blast
  from nt assms(2) k(2) have "try_trigger m w outs
             = (Inl ambiguous_state_error, m, snd (pass (take (Suc k) es) w), outs)"
    by (simp add: try_trigger_def)
  with k show ?thesis by blast
qed

theorem try_trigger_ambiguous_witness:
  "try_trigger
     (set_state (snd (register_transition (snd (register_transition (snd (register_transition
        (FSM (0::nat)) 1 2 (Pair True \<circ> Suc))) 1 3 (Pair True \<circ> Suc))) 1 4 (Pair True \<circ> Suc))) 1)
     (0::nat) (7, 8)
   = (Inl ambiguous_state_error,
      set_state (snd (register_transition (snd (register_transition (snd (register_transition
        (FSM (0::nat)) 1 2 (Pair True \<circ> Suc))) 1 3 (Pair True \<circ> Suc))) 1 4 (Pair True \<circ> Suc))) 1,
      2, (7, 8))"
proof -
  define M :: "(nat, nat) fsm" where "M = set_state (snd (register_transition (snd (register_transition (snd (register_transition
        (FSM (0::nat)) 1 2 (Pair True \<circ> Suc))) 1 3 (Pair True \<circ> Suc))) 1 4 (Pair True \<circ> Suc))) 1"
  define ES :: "(nat, nat) state_info_t list" where
    "ES = [(2, Pair True \<circ> Suc), (3, Pair True \<circ> Suc), (4, Pair True \<circ> Suc)]"
  have h1: "built M" unfolding M_def by (intro built.intros)
  have h2: "trans_tbl M (cur_state M) = Some ES"
    by (simp add: M_def ES_def model_defs)
  have h3: "length ES < 2 ^ 31" by (simp add: ES_def)
  have bs: "fst (pass ES 0) = [True, True, True]" by (simp add: ES_def Let_def)
  have h4: "2 \<le> count_list (fst (pass ES 0)) True" by (simp add: bs)
  from try_trigger_ambiguous [OF h1 h2 h3 h4, of "(7, 8)"] obtain k where
    k: "k < length ES" "count_list (take k (fst (pass ES 0))) True = 1"
    "try_trigger M 0 (7, 8) = (Inl ambiguous_state_error, M, snd (pass (take (Suc k) ES) 0), (7, 8))"
    by blast
  from k(1) have "k = 0 \<or> k = 1 \<or> k = 2" by (auto simp: ES_def)
  with k(2) have "k = 1" by (auto simp: bs)
  then have "snd (pass (take (Suc k) ES) 0) = 2" by (simp add: ES_def Let_def)
  with k(3) show ?thesis by (simp add: M_def)
qed

subsection \<open>A single match\<close>

text \<open>
  Claim C2. First part: the machine has been built through its member functions, its
  current state has a vector \<open>es\<close> of outgoing edges (fewer than \<open>2 ^ 31\<close>), and in a
  pass started on \<open>w\<close> exactly one condition answers true, the one of the edge \<open>k\<close>.
  Then \<open>try_trigger\<close> returns true, the current state becomes the target of edge \<open>k\<close>,
  \<open>old_state\<close> holds the previous state and \<open>new_state\<close> the target; every condition
  has been called. Second part, the scenario: for distinct states \<open>A\<close>, \<open>B\<close>, \<open>C\<close>,
  after registering \<open>A\<close> to \<open>B\<close> with a condition that always answers false and \<open>A\<close>
  to \<open>C\<close> with one that always answers true, and \<open>set_state(A)\<close>, \<open>try_trigger\<close> returns
  true with \<open>old_state = A\<close> and \<open>new_state = C\<close>, and \<open>state()\<close> is then \<open>C\<close>.
\<close>

theorem try_trigger_single_match:
  "(built m \<and> trans_tbl m (cur_state m) = Some es \<and> length es < 2 ^ 31
      \<and> count_list (fst (pass es w)) True = 1 \<and> k < length es \<and> fst (pass es w) ! k
    \<longrightarrow> try_trigger m w outs
          = (Inr True, m\<lparr>cur_state := fst (es ! k)\<rparr>, snd (pass es w), (cur_state m, fst (es ! k))))
   \<and> (A \<noteq> B \<and> A \<noteq> C \<and> B \<noteq> C
    \<longrightarrow> try_trigger
          (set_state (snd (register_transition (snd (register_transition
             (FSM s0) A B (\<lambda>x. (False, f x)))) A C (\<lambda>x. (True, g x)))) A) v outs
          = (Inr True,
             set_state (snd (register_transition (snd (register_transition
               (FSM s0) A B (\<lambda>x. (False, f x)))) A C (\<lambda>x. (True, g x)))) C,
             g (f v), (A, C))
        \<and> state (fst (snd (try_trigger
            (set_state (snd (register_transition (snd (register_transition
               (FSM s0) A B (\<lambda>x. (False, f x)))) A C (\<lambda>x. (True, g x)))) A) v outs))) = C)"
proof (intro conjI impI)
  assume a: "built m \<and> trans_tbl m (cur_state m) = Some es \<and> length es < 2 ^ 31
      \<and> count_list (fst (pass es w)) True = 1 \<and> k < length es \<and> fst (pass es w) ! k"
  then have nt: "\<not> is_terminated_state m (cur_state m)"
    using built_not_terminated [of m "cur_state m" es] by simp
  from a have "eval_loop es 0 (cur_state m) w = (Inr (1, fst (es ! k)), snd (pass es w))"
    using eval_loop_zero_one [of es w k "cur_state m"] by simp
  with nt a show "try_trigger m w outs
          = (Inr True, m\<lparr>cur_state := fst (es ! k)\<rparr>, snd (pass es w), (cur_state m, fst (es ! k)))"
    by (simp add: try_trigger_def)
next
  assume d: "A \<noteq> B \<and> A \<noteq> C \<and> B \<noteq> C"
  then have tb: "snd (register_transition (snd (register_transition
             (FSM s0) A B (\<lambda>x. (False, f x)))) A C (\<lambda>x. (True, g x)))
       = \<lparr>trans_tbl = [A \<mapsto> [(B, \<lambda>x. (False, f x)), (C, \<lambda>x. (True, g x))]],
          edges_tbl = [A \<mapsto> (0, 2), B \<mapsto> (1, 0), C \<mapsto> (1, 0)],
          cur_state = s0\<rparr>"
    by (simp add: scenario_tables)
  from d show "try_trigger
          (set_state (snd (register_transition (snd (register_transition
             (FSM s0) A B (\<lambda>x. (False, f x)))) A C (\<lambda>x. (True, g x)))) A) v outs
          = (Inr True,
             set_state (snd (register_transition (snd (register_transition
               (FSM s0) A B (\<lambda>x. (False, f x)))) A C (\<lambda>x. (True, g x)))) C,
             g (f v), (A, C))"
    unfolding tb by (simp add: set_state_def try_trigger_def is_terminated_state_def Let_def)
  then show "state (fst (snd (try_trigger
            (set_state (snd (register_transition (snd (register_transition
               (FSM s0) A B (\<lambda>x. (False, f x)))) A C (\<lambda>x. (True, g x)))) A) v outs))) = C"
    by (simp add: state_def set_state_def)
qed

theorem try_trigger_single_match_witness:
  "try_trigger
     (set_state (snd (register_transition (snd (register_transition
        (FSM (0::nat)) 1 2 (Pair False \<circ> Suc))) 1 3 (Pair True \<circ> Suc))) 1)
     (0::nat) (7, 8)
   = (Inr True,
      (set_state (snd (register_transition (snd (register_transition
        (FSM (0::nat)) 1 2 (Pair False \<circ> Suc))) 1 3 (Pair True \<circ> Suc))) 1)\<lparr>cur_state := 3\<rparr>,
      2, (1, 3))"
proof -
  define M :: "(nat, nat) fsm" where "M = set_state (snd (register_transition (snd (register_transition
        (FSM (0::nat)) 1 2 (Pair False \<circ> Suc))) 1 3 (Pair True \<circ> Suc))) 1"
  define ES :: "(nat, nat) state_info_t list" where
    "ES = [(2, Pair False \<circ> Suc), (3, Pair True \<circ> Suc)]"
  have h1: "built M" unfolding M_def by (intro built.intros)
  have h2: "trans_tbl M (cur_state M) = Some ES"
    by (simp add: M_def ES_def model_defs)
  have h3: "length ES < 2 ^ 31" by (simp add: ES_def)
  have bs: "pass ES 0 = ([False, True], 2)" by (simp add: ES_def Let_def)
  have h4: "count_list (fst (pass ES 0)) True = 1" by (simp add: bs)
  have h5: "1 < length ES" by (simp add: ES_def)
  have h6: "fst (pass ES 0) ! 1" by (simp add: bs)
  have c: "cur_state M = 1" by (simp add: M_def model_defs)
  from try_trigger_single_match [THEN conjunct1, of M ES 0 1 "(7, 8)"] h1 h2 h3 h4 h5 h6
  have "try_trigger M 0 (7, 8)
          = (Inr True, M\<lparr>cur_state := fst (ES ! 1)\<rparr>, snd (pass ES 0), (cur_state M, fst (ES ! 1)))"
    by blast
  then show ?thesis unfolding bs c by (simp add: M_def ES_def)
qed

subsection \<open>Terminal states are fixed points\<close>

text \<open>
  Claim C3. The current state is terminal: the edge table has an entry for it whose
  out-degree is 0. Then \<open>try_trigger\<close> returns true with \<open>old_state\<close> and \<open>new_state\<close>
  both the current state, and gives back the machine it was given. The second conjunct is
  the repetition: after any number \<open>Suc n\<close> of calls in a row, each on the outputs of the
  one before, with the outside changed by an arbitrary \<open>h\<close> before each call, the result
  is still the same.
\<close>

theorem try_trigger_terminal:
  assumes "edges_tbl m (cur_state m) = Some (i, 0)"
  shows "try_trigger m w outs = (Inr True, m, w, (cur_state m, cur_state m))
       \<and> ((\<lambda>(r :: error + bool, m', w', outs'). try_trigger m' (h w') outs') ^^ Suc n) (r0, m, w, outs)
           = (Inr True, m, (h ^^ Suc n) w, (cur_state m, cur_state m))"
proof -
  from assms have t: "is_terminated_state m (cur_state m)"
    by (simp add: is_terminated_state_def)
  then have one: "try_trigger m v outs' = (Inr True, m, v, (cur_state m, cur_state m))" for v outs'
    by (simp add: try_trigger_def)
  have "((\<lambda>(r :: error + bool, m', w', outs'). try_trigger m' (h w') outs') ^^ Suc n) (r0, m, w, outs)
           = (Inr True, m, (h ^^ Suc n) w, (cur_state m, cur_state m))"
  proof (induction n)
    case 0
    show ?case by (simp add: one)
  next
    case (Suc n)
    have "((\<lambda>(r :: error + bool, m', w', outs'). try_trigger m' (h w') outs') ^^ Suc (Suc n)) (r0, m, w, outs)
        = (\<lambda>(r :: error + bool, m', w', outs'). try_trigger m' (h w') outs')
            (((\<lambda>(r :: error + bool, m', w', outs'). try_trigger m' (h w') outs') ^^ Suc n) (r0, m, w, outs))"
      by (simp del: funpow.simps(2) add: funpow.simps(2) [of "Suc n"])
    then show ?case unfolding Suc.IH by (simp add: one)
  qed
  with one show ?thesis by simp
qed

theorem try_trigger_terminal_witness:
  "edges_tbl (set_state (snd (register_transition (FSM (0::nat)) 1 2 (Pair True \<circ> Suc))) 2) 2 = Some (1, 0)
   \<and> try_trigger (set_state (snd (register_transition (FSM (0::nat)) 1 2 (Pair True \<circ> Suc))) 2) (0::nat) (7, 8)
     = (Inr True, set_state (snd (register_transition (FSM (0::nat)) 1 2 (Pair True \<circ> Suc))) 2, 0, (2, 2))"
proof -
  define M :: "(nat, nat) fsm" where
    "M = set_state (snd (register_transition (FSM (0::nat)) 1 2 (Pair True \<circ> Suc))) 2"
  have c: "cur_state M = 2" by (simp add: M_def set_state_def)
  have h: "edges_tbl M (cur_state M) = Some (1, 0)"
    unfolding c by (simp add: M_def target_only_tables set_state_def)
  from try_trigger_terminal [OF h, of 0 "(7, 8)"] h show ?thesis
    unfolding c by (simp add: M_def)
qed

subsection \<open>Unknown states\<close>

text \<open>
  Claim C4. The current state has no entry in the transition table and is not terminal.
  Then \<open>try_trigger\<close> throws \<open>invalid_state_error\<close>, and the machine, the outside and the
  two output objects are as before.
\<close>

theorem try_trigger_invalid_state:
  assumes "trans_tbl m (cur_state m) = None" and "\<not> is_terminated_state m (cur_state m)"
  shows "try_trigger m w outs = (Inl invalid_state_error, m, w, outs)"
  using assms by (simp add: try_trigger_def)

theorem try_trigger_invalid_state_witness:
  "try_trigger (set_state (snd (register_transition (FSM (0::nat)) 1 2 (Pair True \<circ> Suc))) 5) (0::nat) (7, 8)
     = (Inl invalid_state_error, set_state (snd (register_transition (FSM (0::nat)) 1 2 (Pair True \<circ> Suc))) 5, 0, (7, 8))"
proof -
  define M :: "(nat, nat) fsm" where
    "M = set_state (snd (register_transition (FSM (0::nat)) 1 2 (Pair True \<circ> Suc))) 5"
  have c: "cur_state M = 5" by (simp add: M_def set_state_def)
  have h1: "trans_tbl M (cur_state M) = None"
    unfolding c by (simp add: M_def target_only_tables set_state_def)
  have h2: "\<not> is_terminated_state M (cur_state M)"
    unfolding c by (simp add: M_def target_only_tables set_state_def is_terminated_state_def)
  from try_trigger_invalid_state [OF h1 h2, of 0 "(7, 8)"] show ?thesis
    by (simp add: M_def)
qed

subsection \<open>No match\<close>

text \<open>
  Claim C5. The machine has been built through its member functions, its current state
  has a vector \<open>es\<close> of outgoing edges (fewer than \<open>2 ^ 31\<close>), and no condition of
  \<open>es\<close> answers true in a pass started on \<open>w\<close>. Then \<open>try_trigger\<close> returns false;
  the machine and the two output objects are as before, and every condition has been
  called.
\<close>

theorem try_trigger_no_match:
  assumes "built m" and "trans_tbl m (cur_state m) = Some es" and "length es < 2 ^ 31"
    and "count_list (fst (pass es w)) True = 0"
  shows "try_trigger m w outs = (Inr False, m, snd (pass es w), outs)"
proof -
  from assms(1-3) have nt: "\<not> is_terminated_state m (cur_state m)"
    by (rule built_not_terminated)
  from assms(4) have "eval_loop es 0 (cur_state m) w = (Inr (0, cur_state m), snd (pass es w))"
    by (rule eval_loop_zero_none)
  with nt assms(2) show ?thesis by (simp add: try_trigger_def)
qed

theorem try_trigger_no_match_witness:
  "try_trigger
     (set_state (snd (register_transition (snd (register_transition
        (FSM (0::nat)) 1 2 (Pair False \<circ> Suc))) 1 3 (Pair False \<circ> Suc))) 1)
     (0::nat) (7, 8)
   = (Inr False,
      set_state (snd (register_transition (snd (register_transition
        (FSM (0::nat)) 1 2 (Pair False \<circ> Suc))) 1 3 (Pair False \<circ> Suc))) 1,
      2, (7, 8))"
proof -
  define M :: "(nat, nat) fsm" where "M = set_state (snd (register_transition (snd (register_transition
        (FSM (0::nat)) 1 2 (Pair False \<circ> Suc))) 1 3 (Pair False \<circ> Suc))) 1"
  define ES :: "(nat, nat) state_info_t list" where
    "ES = [(2, Pair False \<circ> Suc), (3, Pair False \<circ> Suc)]"
  have h1: "built M" unfolding M_def by (intro built.intros)
  have c: "cur_state M = 1" by (simp add: M_def set_state_def)
  have h2: "trans_tbl M (cur_state M) = Some ES"
    unfolding c by (simp add: M_def ES_def scenario_tables set_state_def)
  have h3: "length ES < 2 ^ 31" by (simp add: ES_def)
  have bs: "pass ES 0 = ([False, False], 2)" by (simp add: ES_def Let_def)
  have h4: "count_list (fst (pass ES 0)) True = 0" by (simp add: bs)
  from try_trigger_no_match [OF h1 h2 h3 h4, of "(7, 8)"] show ?thesis
    unfolding bs by (simp add: M_def)
qed

subsection \<open>Rejected registrations\<close>

text \<open>
  Claim C6. \<open>register_transition\<close> returns true exactly when source and target differ
  and the vector of the source holds no edge to the target yet. When it returns false the
  machine it leaves is the machine it was given: transition table, edge table and current
  state.
\<close>

theorem register_transition_rejects:
  "fst (register_transition m a b p) = (a \<noteq> b \<and> b \<notin> fst ` set (edges_of m a))
   \<and> (\<not> fst (register_transition m a b p) \<longrightarrow> snd (register_transition m a b p) = m)"
  by (force simp: register_transition_def Let_def list_ex_iff edges_of_def trans_tbl_index_def split: option.splits)

theorem register_transition_rejects_witness:
  "\<not> fst (register_transition (snd (register_transition (FSM (0::nat)) 1 2 (Pair True \<circ> Suc))) 1 2 (Pair False \<circ> Suc))
   \<and> snd (register_transition (snd (register_transition (FSM (0::nat)) 1 2 (Pair True \<circ> Suc))) 1 2 (Pair False \<circ> Suc))
     = snd (register_transition (FSM (0::nat)) 1 2 ((Pair True \<circ> Suc) :: nat trans_func_t))
   \<and> \<not> fst (register_transition (FSM (0::nat)) 1 1 ((Pair True \<circ> Suc) :: nat trans_func_t))
   \<and> fst (register_transition (FSM (0::nat)) 1 2 ((Pair True \<circ> Suc) :: nat trans_func_t))"
proof -
  define M :: "(nat, nat) fsm" where "M = snd (register_transition (FSM (0::nat)) 1 2 (Pair True \<circ> Suc))"
  have e: "edges_of M (Suc 0) = [(2, Pair True \<circ> Suc)]"
    by (simp add: M_def target_only_tables edges_of_def)
  have e0: "edges_of (FSM (0::nat) :: (nat, nat) fsm) (Suc 0) = []" by (simp add: edges_of_def FSM_def)
  from register_transition_rejects [of M 1 2 "Pair False \<circ> Suc"]
  have "\<not> fst (register_transition M 1 2 (Pair False \<circ> Suc))
     \<and> snd (register_transition M 1 2 (Pair False \<circ> Suc)) = M"
    by (simp add: e)
  moreover from register_transition_rejects [of "FSM (0::nat) :: (nat, nat) fsm" 1 1 "Pair True \<circ> Suc"]
  have "\<not> fst (register_transition (FSM (0::nat)) 1 1 ((Pair True \<circ> Suc) :: nat trans_func_t))"
    by simp
  moreover from register_transition_rejects [of "FSM (0::nat) :: (nat, nat) fsm" 1 2 "Pair True \<circ> Suc"]
  have "fst (register_transition (FSM (0::nat)) 1 2 ((Pair True \<circ> Suc) :: nat trans_func_t))"
    by (simp add: e0)
  ultimately show ?thesis by (simp add: M_def)
qed

subsection \<open>Terminal states\<close>

text \<open>
  Claim C7. \<open>is_terminated_state\<close> answers true exactly when the edge table has an entry
  for the state whose out-degree is 0; for a state without an entry it answers false. For
  a machine built through its member functions (with an out-degree the \<open>int32_t\<close> counter
  holds), this is to say: some registered edge enters the state and none leaves it.
\<close>

theorem is_terminated_state_iff:
  "(is_terminated_state m s \<longleftrightarrow> (\<exists>i. edges_tbl m s = Some (i, 0)))
   \<and> (edges_tbl m s = None \<longrightarrow> \<not> is_terminated_state m s)
   \<and> (built m \<and> out_degree m s < 2 ^ 31
        \<longrightarrow> (is_terminated_state m s \<longleftrightarrow> (\<exists>t. (t, s) \<in> edge_set m) \<and> out_degree m s = 0))"
proof (intro conjI impI)
  show "is_terminated_state m s \<longleftrightarrow> (\<exists>i. edges_tbl m s = Some (i, 0))"
    by (cases "edges_tbl m s") (auto simp: is_terminated_state_def)
  show "\<not> is_terminated_state m s" if "edges_tbl m s = None"
    using that by (simp add: is_terminated_state_def)
  show "is_terminated_state m s \<longleftrightarrow> (\<exists>t. (t, s) \<in> edge_set m) \<and> out_degree m s = 0"
    if a: "built m \<and> out_degree m s < 2 ^ 31"
  proof -
    from a have inv: "mirrors m" by (simp add: built_mirrors)
    then have et: "edges_tbl m s =
           (if \<exists>t. (s, t) \<in> edge_set m \<or> (t, s) \<in> edge_set m
            then Some (of_nat (in_degree m s), of_nat (out_degree m s)) else None)"
      unfolding mirrors_def by blast
    have z: "(of_nat (out_degree m s) :: int32_t) = 0 \<longleftrightarrow> out_degree m s = 0"
      using a of_nat_int32_nonzero [of "out_degree m s"] by auto
    have src: "out_degree m s \<noteq> 0" if "(s, t) \<in> edge_set m" for t
    proof -
      from that have "{t. (s, t) \<in> edge_set m} \<noteq> {}" by blast
      with finite_succs [of s m] show ?thesis by (simp add: out_degree_def)
    qed
    show ?thesis
    proof
      assume "is_terminated_state m s"
      then have "(\<exists>t. (s, t) \<in> edge_set m \<or> (t, s) \<in> edge_set m) \<and> out_degree m s = 0"
        using et z by (auto simp: is_terminated_state_def split: if_splits)
      with src show "(\<exists>t. (t, s) \<in> edge_set m) \<and> out_degree m s = 0" by blast
    next
      assume "(\<exists>t. (t, s) \<in> edge_set m) \<and> out_degree m s = 0"
      with et show "is_terminated_state m s" by (auto simp: is_terminated_state_def)
    qed
  qed
qed

theorem is_terminated_state_iff_witness:
  "is_terminated_state (snd (register_transition (FSM (0::nat)) 1 2 ((Pair True \<circ> Suc) :: nat trans_func_t))) 2
   \<and> \<not> is_terminated_state (snd (register_transition (FSM (0::nat)) 1 2 ((Pair True \<circ> Suc) :: nat trans_func_t))) 5
   \<and> out_degree (snd (register_transition (FSM (0::nat)) 1 2 ((Pair True \<circ> Suc) :: nat trans_func_t))) 2 = 0"
proof -
  define M :: "(nat, nat) fsm" where
    "M = snd (register_transition (FSM (0::nat)) 1 2 (Pair True \<circ> Suc))"
  have tb: "M = \<lparr>trans_tbl = [1 \<mapsto> [(2, Pair True \<circ> Suc)]], edges_tbl = [1 \<mapsto> (0, 1), 2 \<mapsto> (1, 0)], cur_state = 0\<rparr>"
    unfolding M_def by (rule target_only_tables) simp
  have h1: "built M" unfolding M_def by (intro built.intros)
  have "out_degree M 2 = length (edges_of M 2)"
    using h1 by (intro mirrors_length built_mirrors)
  then have od: "out_degree M 2 = 0" by (simp add: tb edges_of_def)
  then have h2: "out_degree M 2 < 2 ^ 31" by simp
  have h3: "edges_tbl M 5 = None" by (simp add: tb)
  have h4: "edges_tbl M 2 = Some (1, 0)" by (simp add: tb)
  from is_terminated_state_iff [of M 2] h4 have "is_terminated_state M 2" by simp
  moreover from is_terminated_state_iff [of M 5] h3 have "\<not> is_terminated_state M 5" by simp
  moreover from is_terminated_state_iff [of M 2] h1 h2 calculation(1) have "out_degree M 2 = 0" by blast
  ultimately show ?thesis by (simp add: M_def)
qed

subsection \<open>The output parameters\<close>

text \<open>
  Claim C10. Whatever \<open>try_trigger\<close> does, if it returns true then \<open>old_state\<close>
  holds the state before the call and \<open>new_state\<close> the state after it; if it returns
  false or throws, the two output objects are as they were passed in. It returns true on
  two paths only: the current state is terminal, or exactly one condition of the vector of
  the current state answers true.
\<close>

theorem try_trigger_outputs:
  assumes "try_trigger m w outs = (r, m', w', outs')"
  shows "(r = Inr True \<longrightarrow> outs' = (cur_state m, cur_state m'))
       \<and> (r \<noteq> Inr True \<longrightarrow> outs' = outs)
       \<and> (r = Inr True \<longleftrightarrow>
            is_terminated_state m (cur_state m)
          \<or> (\<exists>es. trans_tbl m (cur_state m) = Some es \<and> count_list (fst (pass es w)) True = 1))"
proof -
  from try_trigger_cases [OF assms]
  have a: "(r = Inr True \<longrightarrow> outs' = (cur_state m, cur_state m')) \<and> (r \<noteq> Inr True \<longrightarrow> outs' = outs)"
    by blast
  have b: "r = Inr True \<longleftrightarrow>
            is_terminated_state m (cur_state m)
          \<or> (\<exists>es. trans_tbl m (cur_state m) = Some es \<and> count_list (fst (pass es w)) True = 1)"
  proof (cases "is_terminated_state m (cur_state m)")
    case True
    with assms show ?thesis by (auto simp: try_trigger_def)
  next
    case nt: False
    show ?thesis
    proof (cases "trans_tbl m (cur_state m)")
      case None
      with nt assms show ?thesis by (auto simp: try_trigger_def)
    next
      case (Some es)
      consider "count_list (fst (pass es w)) True = 0" | "count_list (fst (pass es w)) True = 1"
        | "2 \<le> count_list (fst (pass es w)) True" by linarith
      then show ?thesis
      proof cases
        case 1
        from eval_loop_zero_none [OF 1, of "cur_state m"] nt Some assms show ?thesis
          using 1 by (auto simp: try_trigger_def)
      next
        case 2
        then have "True \<in> set (fst (pass es w))"
          by (metis count_list_0_iff zero_neq_one)
        then obtain k where k: "k < length es" "fst (pass es w) ! k"
          by (auto simp: in_set_conv_nth)
        from eval_loop_zero_one [OF 2 k, of "cur_state m"] nt Some assms show ?thesis
          using 2 by (auto simp: try_trigger_def)
      next
        case 3
        from eval_loop_zero_many [OF 3, of "cur_state m"] obtain k where
          "eval_loop es 0 (cur_state m) w = (Inl ambiguous_state_error, snd (pass (take (Suc k) es) w))"
          by blast
        with nt Some assms show ?thesis
          using 3 by (auto simp: try_trigger_def)
      qed
    qed
  qed
  from a b show ?thesis by blast
qed

theorem try_trigger_outputs_witness:
  "try_trigger
     (set_state (snd (register_transition (snd (register_transition
        (FSM (0::nat)) 1 2 (Pair False \<circ> Suc))) 1 3 (Pair False \<circ> Suc))) 1)
     (0::nat) (7, 8)
   = (Inr False,
      set_state (snd (register_transition (snd (register_transition
        (FSM (0::nat)) 1 2 (Pair False \<circ> Suc))) 1 3 (Pair False \<circ> Suc))) 1,
      2, (7, 8))"
proof -
  define M :: "(nat, nat) fsm" where "M = set_state (snd (register_transition (snd (register_transition
        (FSM (0::nat)) 1 2 (Pair False \<circ> Suc))) 1 3 (Pair False \<circ> Suc))) 1"
  have tb: "M = \<lparr>trans_tbl = [1 \<mapsto> [(2, Pair False \<circ> Suc), (3, Pair False \<circ> Suc)]],
          edges_tbl = [1 \<mapsto> (0, 2), 2 \<mapsto> (1, 0), 3 \<mapsto> (1, 0)], cur_state = 1\<rparr>"
    unfolding M_def by (simp add: scenario_tables set_state_def)
  obtain outs' where run: "try_trigger M 0 (7, 8) = (Inr False, M, 2, outs')"
    by (simp add: tb try_trigger_def is_terminated_state_def Let_def)
  from try_trigger_outputs [OF run] have "outs' = (7, 8)" by simp
  with run show ?thesis by (simp add: M_def)
qed

subsection \<open>The topology summary mirrors the edge set\<close>

text \<open>
  Claim C8. For a machine built through its member functions (any sequence of
  constructions, registrations, \<open>set_state\<close> and trigger calls) and every state \<open>s\<close>:
  the edge table has an entry for \<open>s\<close> exactly when \<open>s\<close> is source or target of a
  registered edge; the entry holds the number of edges entering \<open>s\<close> and the number of
  edges leaving \<open>s\<close> as \<open>int32_t\<close> values, which read back as these very numbers as
  long as they are below \<open>2 ^ 31\<close>; the vector of \<open>s\<close> holds each target once, so its
  length is the number of edges leaving \<open>s\<close>. And every accepted registration appends
  (target, condition) to the vector of the source, touches no other vector, adds one to
  the out-degree of the source and to the in-degree of the target, starting from (0, 0)
  for a state without an entry, touches no other entry and not the current state.
\<close>

theorem topology_mirrors_edges:
  assumes "built m"
  shows "(edges_tbl m s \<noteq> None \<longleftrightarrow> (\<exists>t. (s, t) \<in> edge_set m \<or> (t, s) \<in> edge_set m))
       \<and> (\<forall>d. edges_tbl m s = Some d \<longrightarrow>
             fst d = of_nat (in_degree m s) \<and> snd d = of_nat (out_degree m s)
           \<and> (in_degree m s < 2 ^ 31 \<longrightarrow> sint (fst d) = int (in_degree m s))
           \<and> (out_degree m s < 2 ^ 31 \<longrightarrow> sint (snd d) = int (out_degree m s)))
       \<and> distinct (map fst (edges_of m s))
       \<and> out_degree m s = length (edges_of m s)
       \<and> (fst (register_transition m a b p) \<longrightarrow>
             edges_of (snd (register_transition m a b p)) a = edges_of m a @ [(b, p)]
           \<and> (\<forall>s'. s' \<noteq> a \<longrightarrow> trans_tbl (snd (register_transition m a b p)) s' = trans_tbl m s')
           \<and> edges_tbl (snd (register_transition m a b p)) a
               = Some (fst (degrees m a), snd (degrees m a) + 1)
           \<and> edges_tbl (snd (register_transition m a b p)) b
               = Some (fst (degrees m b) + 1, snd (degrees m b))
           \<and> (\<forall>s'. s' \<noteq> a \<and> s' \<noteq> b \<longrightarrow>
                 edges_tbl (snd (register_transition m a b p)) s' = edges_tbl m s')
           \<and> cur_state (snd (register_transition m a b p)) = cur_state m)"
proof -
  from assms have inv: "mirrors m" by (rule built_mirrors)
  then have et: "edges_tbl m s =
           (if \<exists>t. (s, t) \<in> edge_set m \<or> (t, s) \<in> edge_set m
            then Some (of_nat (in_degree m s), of_nat (out_degree m s)) else None)"
    unfolding mirrors_def by blast
  have p1: "edges_tbl m s \<noteq> None \<longleftrightarrow> (\<exists>t. (s, t) \<in> edge_set m \<or> (t, s) \<in> edge_set m)"
    by (simp add: et)
  have p2: "\<forall>d. edges_tbl m s = Some d \<longrightarrow>
             fst d = of_nat (in_degree m s) \<and> snd d = of_nat (out_degree m s)
           \<and> (in_degree m s < 2 ^ 31 \<longrightarrow> sint (fst d) = int (in_degree m s))
           \<and> (out_degree m s < 2 ^ 31 \<longrightarrow> sint (snd d) = int (out_degree m s))"
    using et by (auto simp: sint_of_nat_int32 split: if_splits)
  have p3: "distinct (map fst (edges_of m s))" using inv by (rule mirrors_vector)
  have p4: "out_degree m s = length (edges_of m s)" using inv by (rule mirrors_length)
  have p5: "edges_of (snd (register_transition m a b p)) a = edges_of m a @ [(b, p)]
           \<and> (\<forall>s'. s' \<noteq> a \<longrightarrow> trans_tbl (snd (register_transition m a b p)) s' = trans_tbl m s')
           \<and> edges_tbl (snd (register_transition m a b p)) a
               = Some (fst (degrees m a), snd (degrees m a) + 1)
           \<and> edges_tbl (snd (register_transition m a b p)) b
               = Some (fst (degrees m b) + 1, snd (degrees m b))
           \<and> (\<forall>s'. s' \<noteq> a \<and> s' \<noteq> b \<longrightarrow>
                 edges_tbl (snd (register_transition m a b p)) s' = edges_tbl m s')
           \<and> cur_state (snd (register_transition m a b p)) = cur_state m"
    if ok: "fst (register_transition m a b p)"
  proof -
    have acc: "a \<noteq> b \<and> b \<notin> fst ` set (edges_of m a)"
    proof (rule ccontr)
      assume "\<not> (a \<noteq> b \<and> b \<notin> fst ` set (edges_of m a))"
      then have "register_transition m a b p = (False, m)" by (rule register_reject)
      with ok show False by simp
    qed
    then have ne: "a \<noteq> b" and fresh: "b \<notin> fst ` set (edges_of m a)" by simp_all
    show ?thesis
      unfolding register_accept [OF ne fresh] using ne
      by (simp add: edges_of_def Let_def degrees_def)
  qed
  from p1 p2 p3 p4 p5 show ?thesis by blast
qed

theorem topology_mirrors_edges_witness:
  "built (snd (register_transition (snd (register_transition
        (FSM (0::nat)) 1 2 (Pair False \<circ> Suc))) 1 3 ((Pair True \<circ> Suc) :: nat trans_func_t)))
   \<and> out_degree (snd (register_transition (snd (register_transition
        (FSM (0::nat)) 1 2 (Pair False \<circ> Suc))) 1 3 ((Pair True \<circ> Suc) :: nat trans_func_t))) 1 = 2
   \<and> (of_nat (in_degree (snd (register_transition (snd (register_transition
        (FSM (0::nat)) 1 2 (Pair False \<circ> Suc))) 1 3 ((Pair True \<circ> Suc) :: nat trans_func_t))) 3) :: int32_t) = 1
   \<and> edges_tbl (snd (register_transition (snd (register_transition
        (FSM (0::nat)) 1 2 (Pair False \<circ> Suc))) 1 3 ((Pair True \<circ> Suc) :: nat trans_func_t))) 1 = Some (0, 2)"
proof -
  define M0 :: "(nat, nat) fsm" where "M0 = snd (register_transition (FSM (0::nat)) 1 2 (Pair False \<circ> Suc))"
  define M :: "(nat, nat) fsm" where "M = snd (register_transition M0 1 3 (Pair True \<circ> Suc))"
  have tb0: "M0 = \<lparr>trans_tbl = [1 \<mapsto> [(2, Pair False \<circ> Suc)]], edges_tbl = [1 \<mapsto> (0, 1), 2 \<mapsto> (1, 0)], cur_state = 0\<rparr>"
    unfolding M0_def by (rule target_only_tables) simp
  have tb: "M = \<lparr>trans_tbl = [1 \<mapsto> [(2, Pair False \<circ> Suc), (3, Pair True \<circ> Suc)]],
          edges_tbl = [1 \<mapsto> (0, 2), 2 \<mapsto> (1, 0), 3 \<mapsto> (1, 0)], cur_state = 0\<rparr>"
    unfolding M_def M0_def by (simp add: scenario_tables)
  have b0: "built M0" unfolding M0_def by (intro built.intros)
  have b: "built M" unfolding M_def M0_def by (intro built.intros)
  have e0: "edges_of M0 (Suc 0) = [(2, Pair False \<circ> Suc)]" by (simp add: tb0 edges_of_def)
  have acc: "fst (register_transition M0 1 3 (Pair True \<circ> Suc))"
    by (simp add: register_accept e0)
  note step = topology_mirrors_edges [OF b0, of 1 1 3 "Pair True \<circ> Suc"]
  note after = topology_mirrors_edges [OF b, of 1 1 3 "Pair True \<circ> Suc"]
  note after3 = topology_mirrors_edges [OF b, of 3 1 3 "Pair True \<circ> Suc"]
  from step acc have "edges_tbl M 1 = Some (fst (degrees M0 1), snd (degrees M0 1) + 1)"
    unfolding M_def by blast
  then have et: "edges_tbl M 1 = Some (0, 2)" by (simp add: tb0 degrees_def)
  from after have "out_degree M 1 = length (edges_of M 1)" by blast
  then have od: "out_degree M 1 = 2" by (simp add: tb edges_of_def)
  have "edges_tbl M 3 = Some (1, 0)" by (simp add: tb)
  with after3 have id: "(of_nat (in_degree M 3) :: int32_t) = 1"
    by simp
  from b et od id show ?thesis by (simp add: M_def M0_def)
qed

subsection \<open>The deadline-bounded trigger\<close>



end
